theory Spec2Isabelle
  imports Main "HOL-Library.Sublist" "HOL-Library.Char_ord" "HOL-Library.List_Lexorder"
    "HOL-Library.Multiset"
begin

section \<open>The syntax tree read by stylecheckertwo.py\<close>

text \<open>
  The program works on the tree returned by \<^verbatim>\<open>ast.parse\<close>. Every node is a Python object;
  its identity is modelled by a number (\<open>nid\<close>), so that two positions of the tree holding the
  same object (the parser shares one \<^verbatim>\<open>Load\<close>, \<^verbatim>\<open>Store\<close>, \<^verbatim>\<open>Add\<close>, ... object between all
  its uses) are two occurrences of the same \<open>nid\<close>. The list \<open>children\<close> is what
  \<^verbatim>\<open>ast.iter_child_nodes(node)\<close> yields, in that order. The node kinds carry the attributes
  the program reads; every kind the program never tests for is \<open>Other\<close>.

  An annotation or a return type is an expression; only its presence is ever tested, so it is
  kept as its source text. The field for the documentation string is the value of
  \<^verbatim>\<open>ast.get_docstring(node)\<close>: \<open>None\<close> when the body does not start with a string
  expression, the cleaned text otherwise.
\<close>

type_synonym expr = string

record arg =
  arg_name :: string
  annotation :: "expr option"

record arguments =
  posonlyargs :: "arg list"
  args :: "arg list"
  vararg :: "arg option"
  kwonlyargs :: "arg list"
  kwarg :: "arg option"

record import_alias =
  alias_name :: string
  asname :: "string option"

datatype kind =
    Module
  | ClassDef string "string option"
  | FunctionDef string arguments "expr option" "string option"
  | AsyncFunctionDef string arguments "expr option" "string option"
  | Import "import_alias list"
  | ImportFrom "import_alias list"
  | Other

datatype node = Node (nid: nat) (kind: kind) (children: "node list")

fun isClassDef :: "node \<Rightarrow> bool" where
  "isClassDef (Node _ (ClassDef _ _) _) = True"
| "isClassDef _ = False"

fun isFunctionDef :: "node \<Rightarrow> bool" where
  "isFunctionDef (Node _ (FunctionDef _ _ _ _) _) = True"
| "isFunctionDef _ = False"

fun isImport :: "node \<Rightarrow> bool" where
  "isImport (Node _ (Import _) _) = True"
| "isImport (Node _ (ImportFrom _) _) = True"
| "isImport _ = False"

text \<open>\<^verbatim>\<open>node.name\<close>, read by the program only after a test for a class or a function.\<close>

fun node_name :: "node \<Rightarrow> string" where
  "node_name (Node _ (ClassDef n _) _) = n"
| "node_name (Node _ (FunctionDef n _ _ _) _) = n"
| "node_name (Node _ (AsyncFunctionDef n _ _ _) _) = n"
| "node_name _ = []"

text \<open>\<^verbatim>\<open>node.args.args\<close> and \<^verbatim>\<open>node.returns\<close> of a function declaration.\<close>

fun node_args :: "node \<Rightarrow> arguments" where
  "node_args (Node _ (FunctionDef _ a _ _) _) = a"
| "node_args (Node _ (AsyncFunctionDef _ a _ _) _) = a"
| "node_args _ = \<lparr>posonlyargs = [], args = [], vararg = None, kwonlyargs = [], kwarg = None\<rparr>"

fun node_returns :: "node \<Rightarrow> expr option" where
  "node_returns (Node _ (FunctionDef _ _ r _) _) = r"
| "node_returns (Node _ (AsyncFunctionDef _ _ r _) _) = r"
| "node_returns _ = None"

fun get_docstring :: "node \<Rightarrow> string option" where
  "get_docstring (Node _ (ClassDef _ d) _) = d"
| "get_docstring (Node _ (FunctionDef _ _ _ d) _) = d"
| "get_docstring (Node _ (AsyncFunctionDef _ _ _ d) _) = d"
| "get_docstring _ = None"

subsection \<open>\<^verbatim>\<open>ast.walk\<close>\<close>

text \<open>
  \<^verbatim>\<open>ast.walk\<close> keeps a queue: it takes the first node off, appends that node's children at
  the end, and yields the node, until the queue is empty.
\<close>

function walk_queue :: "node list \<Rightarrow> node list" where
  "walk_queue [] = []"
| "walk_queue (n # todo) = n # walk_queue (todo @ children n)"
  by pat_completeness auto
termination
proof (relation "measure (\<lambda>q. sum_list (map size q))")
  show "wf (measure (\<lambda>q. sum_list (map size q)))" by simp
next
  fix n :: node and todo :: "node list"
  have "sum_list (map size (children n)) < size n"
    by (cases n) (simp add: size_list_conv_sum_list)
  then show "(todo @ children n, n # todo) \<in> measure (\<lambda>q. sum_list (map size q))"
    by simp
qed

definition walk :: "node \<Rightarrow> node list" where
  "walk tree = walk_queue [tree]"

section \<open>The extractors\<close>

datatype error = IndexError

text \<open>\<^verbatim>\<open>node.names[0].name\<close> raises when the list of names is empty.\<close>

fun first_name :: "node \<Rightarrow> error + string" where
  "first_name (Node _ (Import (a # _)) _) = Inr (alias_name a)"
| "first_name (Node _ (ImportFrom (a # _)) _) = Inr (alias_name a)"
| "first_name _ = Inl IndexError"

fun collect :: "(error + 'a) list \<Rightarrow> error + 'a list" where
  "collect [] = Inr []"
| "collect (Inl e # _) = Inl e"
| "collect (Inr x # rs) = (case collect rs of Inl e \<Rightarrow> Inl e | Inr xs \<Rightarrow> Inr (x # xs))"

definition get_imports :: "node \<Rightarrow> error + string list" where
  "get_imports tree =
     (case collect [first_name node. node \<leftarrow> walk tree, isImport node] of
        Inl e \<Rightarrow> Inl e
      | Inr names \<Rightarrow> Inr (sorted_list_of_set (set names)))"

definition get_classes :: "node \<Rightarrow> string list" where
  "get_classes tree = [node_name node. node \<leftarrow> walk tree, isClassDef node]"

text \<open>
  The attribute \<^verbatim>\<open>parent\<close> of the node objects is the only state the program writes. It is
  a map from the identity of a node to the node its attribute refers to; an object without
  the attribute is not in the map, and \<^verbatim>\<open>getattr(node, 'parent', None)\<close> reads the map.
\<close>

type_synonym parents = "nat \<rightharpoonup> node"

definition parent_is_class :: "parents \<Rightarrow> node \<Rightarrow> bool" where
  "parent_is_class ps node = (case ps (nid node) of None \<Rightarrow> False | Some p \<Rightarrow> isClassDef p)"

definition get_functions :: "node \<times> parents \<Rightarrow> string list" where
  "get_functions tp =
     [node_name node. node \<leftarrow> walk (fst tp),
        isFunctionDef node \<and> \<not> parent_is_class (snd tp) node]"

definition startswith :: "string \<Rightarrow> string \<Rightarrow> bool" where
  "startswith s p = (take (length p) s = p)"

definition endswith :: "string \<Rightarrow> string \<Rightarrow> bool" where
  "endswith s p = (length p \<le> length s \<and> drop (length s - length p) s = p)"

definition is_special_method :: "string \<Rightarrow> bool" where
  "is_special_method name = (startswith name ''__'' \<and> endswith name ''__'')"

definition newline :: char where
  "newline = CHR 0x0A"

text \<open>One turn of the loop of \<^verbatim>\<open>get_docstrings\<close>; \<^verbatim>\<open>if doc\<close> is false for \<^verbatim>\<open>None\<close> and for
  the empty string.\<close>

definition docstrings_step :: "string list \<Rightarrow> node \<Rightarrow> string list" where
  "docstrings_step docstring_info node =
     (if isClassDef node \<or> isFunctionDef node then
        if isFunctionDef node \<and> is_special_method (node_name node) then docstring_info
        else (case get_docstring node of
                Some doc \<Rightarrow>
                  if doc \<noteq> [] then docstring_info @ [node_name node @ '':'' @ [newline] @ doc]
                  else docstring_info @ [node_name node @ '': DocString not found.'']
              | None \<Rightarrow> docstring_info @ [node_name node @ '': DocString not found.''])
      else docstring_info)"

definition get_docstrings :: "node \<Rightarrow> string list" where
  "get_docstrings tree = foldl docstrings_step [] (walk tree)"

definition annotation_step :: "string list \<Rightarrow> node \<Rightarrow> string list" where
  "annotation_step missing node =
     (if isFunctionDef node then
        if is_special_method (node_name node) then missing
        else (let has_annotations = list_all (\<lambda>a. annotation a \<noteq> None) (args (node_args node))
              in if \<not> has_annotations \<or> node_returns node = None
                 then missing @ [node_name node] else missing)
      else missing)"

definition get_type_annotation_issues :: "node \<Rightarrow> string list" where
  "get_type_annotation_issues tree = foldl annotation_step [] (walk tree)"

definition get_special_methods :: "node \<Rightarrow> string list" where
  "get_special_methods tree =
     [node_name node. node \<leftarrow> walk tree, isFunctionDef node \<and> is_special_method (node_name node)]"

text \<open>\<^verbatim>\<open>add_parents\<close>: for every node of the walk, every child gets the node as its parent;
  the tree itself is returned.\<close>

definition set_parent_of_children :: "parents \<Rightarrow> node \<Rightarrow> parents" where
  "set_parent_of_children ps node = foldl (\<lambda>ps child. ps(nid child \<mapsto> node)) ps (children node)"

definition add_parents :: "node \<times> parents \<Rightarrow> node \<times> parents" where
  "add_parents tp = (fst tp, foldl set_parent_of_children (snd tp) (walk (fst tp)))"

subsection \<open>Regular expressions\<close>

text \<open>
  The two naming checks call \<^verbatim>\<open>re.match\<close> with a pattern of the form \<^verbatim>\<open>^r$\<close>. The patterns
  use character ranges, sequence, \<^verbatim>\<open>*\<close>, \<^verbatim>\<open>+\<close> and \<^verbatim>\<open>?\<close> only, so \<^verbatim>\<open>re.match\<close> finds a
  match exactly when the text belongs to the language of \<open>r\<close>; the matcher below decides that
  by derivatives. Python's \<^verbatim>\<open>$\<close> matches at the end of the text and also just before a
  newline that ends the text.
\<close>

datatype regex =
    Fail
  | Eps
  | Lit char
  | Range char char
  | Alt regex regex
  | Seq regex regex
  | Star regex

fun nullable :: "regex \<Rightarrow> bool" where
  "nullable Fail = False"
| "nullable Eps = True"
| "nullable (Lit c) = False"
| "nullable (Range lo hi) = False"
| "nullable (Alt r s) = (nullable r \<or> nullable s)"
| "nullable (Seq r s) = (nullable r \<and> nullable s)"
| "nullable (Star r) = True"

fun deriv :: "char \<Rightarrow> regex \<Rightarrow> regex" where
  "deriv c Fail = Fail"
| "deriv c Eps = Fail"
| "deriv c (Lit d) = (if c = d then Eps else Fail)"
| "deriv c (Range lo hi) = (if lo \<le> c \<and> c \<le> hi then Eps else Fail)"
| "deriv c (Alt r s) = Alt (deriv c r) (deriv c s)"
| "deriv c (Seq r s) =
     (if nullable r then Alt (Seq (deriv c r) s) (deriv c s) else Seq (deriv c r) s)"
| "deriv c (Star r) = Seq (deriv c r) (Star r)"

fun matches :: "regex \<Rightarrow> string \<Rightarrow> bool" where
  "matches r [] = nullable r"
| "matches r (c # s) = matches (deriv c r) s"

definition re_match :: "regex \<Rightarrow> string \<Rightarrow> bool" where
  "re_match r s = (matches r s \<or> (s \<noteq> [] \<and> last s = newline \<and> matches r (butlast s)))"

definition one_or_more :: "regex \<Rightarrow> regex" where
  "one_or_more r = Seq r (Star r)"

definition zero_or_one :: "regex \<Rightarrow> regex" where
  "zero_or_one r = Alt r Eps"

definition lower_letter :: regex where
  "lower_letter = Range CHR ''a'' CHR ''z''"

definition upper_letter :: regex where
  "upper_letter = Range CHR ''A'' CHR ''Z''"

definition decimal_digit :: regex where
  "decimal_digit = Range CHR ''0'' CHR ''9''"

text \<open>\<^verbatim>\<open>^[A-Z][A-Za-z0-9]*$\<close>\<close>

definition class_name_pattern :: regex where
  "class_name_pattern = Seq upper_letter (Star (Alt upper_letter (Alt lower_letter decimal_digit)))"

text \<open>\<^verbatim>\<open>^([a-z]+_?)*[a-z]+$\<close>\<close>

definition function_name_pattern :: regex where
  "function_name_pattern =
     Seq (Star (Seq (one_or_more lower_letter) (zero_or_one (Lit CHR ''_''))))
         (one_or_more lower_letter)"

definition check_class_naming :: "string list \<Rightarrow> string list" where
  "check_class_naming classes = [cls. cls \<leftarrow> classes, \<not> re_match class_name_pattern cls]"

definition naming_step :: "string list \<Rightarrow> node \<Rightarrow> string list" where
  "naming_step bad_names node =
     (if isFunctionDef node then
        if is_special_method (node_name node) then bad_names
        else if \<not> re_match function_name_pattern (node_name node)
             then bad_names @ [node_name node] else bad_names
      else bad_names)"

definition check_function_naming :: "node \<Rightarrow> string list" where
  "check_function_naming tree = foldl naming_step [] (walk tree)"

section \<open>Notions of the specification\<close>

subsection \<open>Languages of regular expressions\<close>

definition conc :: "string set \<Rightarrow> string set \<Rightarrow> string set" where
  "conc A B = {u @ v | u v. u \<in> A \<and> v \<in> B}"

inductive_set star :: "string set \<Rightarrow> string set" for A :: "string set" where
  star_empty: "[] \<in> star A"
| star_more: "u \<in> A \<Longrightarrow> v \<in> star A \<Longrightarrow> u @ v \<in> star A"

fun lang :: "regex \<Rightarrow> string set" where
  "lang Fail = {}"
| "lang Eps = {[]}"
| "lang (Lit c) = {[c]}"
| "lang (Range lo hi) = {[c] | c. lo \<le> c \<and> c \<le> hi}"
| "lang (Alt r s) = lang r \<union> lang s"
| "lang (Seq r s) = conc (lang r) (lang s)"
| "lang (Star r) = star (lang r)"

subsection \<open>Naming conventions in words\<close>

definition is_lower :: "char \<Rightarrow> bool" where
  "is_lower c = (CHR ''a'' \<le> c \<and> c \<le> CHR ''z'')"

definition is_upper :: "char \<Rightarrow> bool" where
  "is_upper c = (CHR ''A'' \<le> c \<and> c \<le> CHR ''Z'')"

definition is_digit :: "char \<Rightarrow> bool" where
  "is_digit c = (CHR ''0'' \<le> c \<and> c \<le> CHR ''9'')"

fun double_underscore :: "string \<Rightarrow> bool" where
  "double_underscore (c # d # s) = ((c = CHR ''_'' \<and> d = CHR ''_'') \<or> double_underscore (d # s))"
| "double_underscore _ = False"

text \<open>
  Groups of lowercase letters separated by single underscores: the name is not empty, holds
  lowercase letters and underscores only (so no digit), and has no leading, trailing or
  double underscore.
\<close>

definition snake_case :: "string \<Rightarrow> bool" where
  "snake_case s =
     (s \<noteq> [] \<and> list_all (\<lambda>c. is_lower c \<or> c = CHR ''_'') s
      \<and> hd s \<noteq> CHR ''_'' \<and> last s \<noteq> CHR ''_'' \<and> \<not> double_underscore s)"

text \<open>One uppercase letter, then any run of letters and digits.\<close>

definition camel_case :: "string \<Rightarrow> bool" where
  "camel_case s =
     (s \<noteq> [] \<and> is_upper (hd s) \<and> list_all (\<lambda>c. is_upper c \<or> is_lower c \<or> is_digit c) (tl s))"

text \<open>The states of the automaton of snake case: \<open>False\<close> wants a letter next, \<open>True\<close> has
  just read one.\<close>

fun snake_run :: "bool \<Rightarrow> string \<Rightarrow> bool" where
  "snake_run q [] = q"
| "snake_run False (c # s) = (is_lower c \<and> snake_run True s)"
| "snake_run True (c # s) =
     (if is_lower c then snake_run True s else c = CHR ''_'' \<and> snake_run False s)"

text \<open>The nonempty words of lowercase letters, and the language of the pattern for function
  names written with them.\<close>

definition words :: "string set" where
  "words = {w. w \<noteq> [] \<and> list_all is_lower w}"

definition snake_lang :: "string set" where
  "snake_lang = conc (star (words \<union> {w @ ''_'' | w. w \<in> words})) words"

subsection \<open>Annotations of all the parameters\<close>

text \<open>
  A declaration has five groups of parameters: positional-only ones, the ordinary ones
  (\<^verbatim>\<open>args.args\<close>), \<^verbatim>\<open>*args\<close>, keyword-only ones and \<^verbatim>\<open>**kwargs\<close>. The specification flags a
  declaration when some parameter has no declared type or there is no declared return type.
\<close>

definition all_parameters :: "arguments \<Rightarrow> arg list" where
  "all_parameters a =
     posonlyargs a @ args a @ (case vararg a of None \<Rightarrow> [] | Some v \<Rightarrow> [v])
       @ kwonlyargs a @ (case kwarg a of None \<Rightarrow> [] | Some k \<Rightarrow> [k])"

definition lacks_annotation :: "node \<Rightarrow> bool" where
  "lacks_annotation node =
     (list_ex (\<lambda>a. annotation a = None) (all_parameters (node_args node))
      \<or> node_returns node = None)"

subsection \<open>Entries for documentation strings\<close>

text \<open>The declarations that get an entry: classes, and functions that are not special
  methods.\<close>

definition documented :: "node \<Rightarrow> bool" where
  "documented node =
     (isClassDef node \<or> (isFunctionDef node \<and> \<not> is_special_method (node_name node)))"

text \<open>The entry as the specification words it: the name, a colon, a space, the text.\<close>

definition claimed_docstring_entry :: "node \<Rightarrow> string" where
  "claimed_docstring_entry node =
     (case get_docstring node of
        Some doc \<Rightarrow> node_name node @ '': '' @ doc
      | None \<Rightarrow> node_name node @ '': DocString not found.'')"

text \<open>The entry with the name and the text on two lines, and a text that is empty counted as
  missing.\<close>

definition docstring_entry :: "node \<Rightarrow> string" where
  "docstring_entry node =
     (if get_docstring node = None \<or> get_docstring node = Some []
      then node_name node @ '': DocString not found.''
      else node_name node @ '':'' @ [newline] @ the (get_docstring node))"

subsection \<open>Orders of discovery\<close>

text \<open>Pre-order: a node, then the subtrees of its children from left to right.\<close>

fun preorder :: "node \<Rightarrow> node list" where
  "preorder (Node i k cs) = Node i k cs # concat (map preorder cs)"

text \<open>Level order: the root, then all its children, then all their children, and so on, each
  level from left to right.\<close>

function levels :: "node list \<Rightarrow> node list list" where
  "levels [] = []"
| "levels (n # ns) = (n # ns) # levels (concat (map children (n # ns)))"
  by pat_completeness auto
termination
proof (relation "measure (\<lambda>q. sum_list (map size q))")
  show "wf (measure (\<lambda>q. sum_list (map size q)))" by simp
next
  fix n :: node and ns :: "node list"
  have step: "sum_list (map size (children m)) < size m" for m :: node
    by (cases m) (simp add: size_list_conv_sum_list)
  have "sum_list (map size (concat (map children q))) \<le> sum_list (map size q)"
    for q :: "node list"
  proof (induction q)
    case Nil
    show ?case by simp
  next
    case (Cons m q)
    with step [of m] show ?case by simp
  qed
  then have "sum_list (map size (concat (map children ns))) \<le> sum_list (map size ns)" .
  with step [of n]
  show "(concat (map children (n # ns)), n # ns) \<in> measure (\<lambda>q. sum_list (map size q))"
    by simp
qed

definition level_order :: "node \<Rightarrow> node list" where
  "level_order tree = concat (levels [tree])"

subsection \<open>Parents\<close>

text \<open>
  The pairs of a node of the walk and one of its direct children, in the order in which
  \<^verbatim>\<open>add_parents\<close> meets them; and every node of the walk with the node of which it is a
  direct child (none for the root).
\<close>

definition edges_of :: "node list \<Rightarrow> (node \<times> node) list" where
  "edges_of ns = concat (map (\<lambda>p. map (\<lambda>c. (p, c)) (children p)) ns)"

definition edges :: "node \<Rightarrow> (node \<times> node) list" where
  "edges tree = edges_of (walk tree)"

definition walk_with_parent :: "node \<Rightarrow> (node \<times> node option) list" where
  "walk_with_parent tree = (tree, None) # map (\<lambda>e. (snd e, Some (fst e))) (edges tree)"

text \<open>A node object that the walk meets once only.\<close>

definition unshared :: "node \<Rightarrow> node \<Rightarrow> bool" where
  "unshared tree n = (count_list (map nid (walk tree)) (nid n) = 1)"

text \<open>Every node carries a reference to the node of which it is a direct child, the root
  none: for all nodes, as the specification says it, and for the unshared ones.\<close>

definition parents_as_claimed :: "node \<Rightarrow> parents \<Rightarrow> bool" where
  "parents_as_claimed tree ps = list_all (\<lambda>cp. ps (nid (fst cp)) = snd cp) (walk_with_parent tree)"

definition parents_of_unshared :: "node \<Rightarrow> parents \<Rightarrow> bool" where
  "parents_of_unshared tree ps =
     list_all (\<lambda>cp. unshared tree (fst cp) \<longrightarrow> ps (nid (fst cp)) = snd cp) (walk_with_parent tree)"

definition has_class_parent :: "node option \<Rightarrow> bool" where
  "has_class_parent po = (case po of None \<Rightarrow> False | Some p \<Rightarrow> isClassDef p)"

text \<open>The writes of \<^verbatim>\<open>add_parents\<close>, one edge at a time.\<close>

definition write_all :: "parents \<Rightarrow> (node \<times> node) list \<Rightarrow> parents" where
  "write_all ps es = foldl (\<lambda>ps e. ps(nid (snd e) \<mapsto> fst e)) ps es"

text \<open>
  The parent that the walk meets last for the node object \<open>k\<close>: among the pairs of a node
  and a direct child whose child is the object \<open>k\<close>, the node of the last pair; none when
  the object is the child of no node.
\<close>

definition last_parent :: "node \<Rightarrow> nat \<Rightarrow> node option" where
  "last_parent tree k =
     (case filter (\<lambda>e. nid (snd e) = k) (edges tree) of
        [] \<Rightarrow> None
      | e # es \<Rightarrow> Some (fst (last (e # es))))"

subsection \<open>Async function declarations\<close>

text \<open>The same tree with every async function declaration replaced by a statement of no
  interest that has the same children.\<close>

fun erase_async_kind :: "kind \<Rightarrow> kind" where
  "erase_async_kind (AsyncFunctionDef _ _ _ _) = Other"
| "erase_async_kind k = k"

fun erase_async :: "node \<Rightarrow> node" where
  "erase_async (Node i k cs) = Node i (erase_async_kind k) (map erase_async cs)"

section \<open>Example trees\<close>

definition no_args :: arguments where
  "no_args = \<lparr>posonlyargs = [], args = [], vararg = None, kwonlyargs = [], kwarg = None\<rparr>"

definition plain_function :: "nat \<Rightarrow> string \<Rightarrow> node" where
  "plain_function i name = Node i (FunctionDef name no_args None None) []"

text \<open>Five functions, named as in the examples of the naming convention.\<close>

definition ex_names :: node where
  "ex_names = Node 0 Module
     [plain_function 1 ''do_thing'', plain_function 2 ''DoThing'', plain_function 3 ''do__thing'',
      plain_function 4 ''_do'', plain_function 5 ''do1'']"

text \<open>\<^verbatim>\<open>def f(): "hi"\<close>\<close>

definition ex_doc :: node where
  "ex_doc = Node 0 Module [Node 1 (FunctionDef ''f'' no_args None (Some ''hi'')) [Node 2 Other []]]"

text \<open>A class \<^verbatim>\<open>A\<close> with a method \<^verbatim>\<open>m\<close> and a nested class \<^verbatim>\<open>Inner\<close>, then a function \<^verbatim>\<open>f\<close>
  and a class \<^verbatim>\<open>B\<close>.\<close>

definition ex_nested :: node where
  "ex_nested = Node 0 Module
     [Node 1 (ClassDef ''A'' None)
        [Node 2 (FunctionDef ''m'' no_args None None) [], Node 3 (ClassDef ''Inner'' None) []],
      Node 4 (FunctionDef ''f'' no_args None None) [],
      Node 5 (ClassDef ''B'' None) []]"

text \<open>A class with the method \<^verbatim>\<open>__init__\<close>, and a free function \<^verbatim>\<open>__main__\<close>.\<close>

definition ex_special :: node where
  "ex_special = Node 0 Module
     [Node 1 (ClassDef ''C'' None) [Node 2 (FunctionDef ''__init__'' no_args None None) []],
      Node 3 (FunctionDef ''__main__'' no_args None None) []]"

text \<open>\<^verbatim>\<open>def f(*, x) -> int: return x\<close>: the only parameter is keyword-only and has no declared
  type; the children are the arguments, the statement of the body and the return type.\<close>

definition ex_kwonly_function :: node where
  "ex_kwonly_function = Node 1
     (FunctionDef ''f''
        \<lparr>posonlyargs = [], args = [], vararg = None,
         kwonlyargs = [\<lparr>arg_name = ''x'', annotation = None\<rparr>], kwarg = None\<rparr>
        (Some ''int'') None)
     [Node 2 Other [Node 3 Other []], Node 4 Other [], Node 5 Other []]"

definition ex_kwonly :: node where
  "ex_kwonly = Node 0 Module [ex_kwonly_function]"

text \<open>\<^verbatim>\<open>async def fetch()\<close> with a plain function \<^verbatim>\<open>helper\<close> declared inside it.\<close>

definition ex_async :: node where
  "ex_async = Node 0 Module
     [Node 1 (AsyncFunctionDef ''fetch'' no_args None None)
        [Node 2 (FunctionDef ''helper'' no_args None None) []]]"

text \<open>A class \<^verbatim>\<open>Foo\<close> with a method \<^verbatim>\<open>bar\<close>, and a function \<^verbatim>\<open>baz\<close> with a function \<^verbatim>\<open>inner\<close>
  declared inside it; \<^verbatim>\<open>bar\<close> and \<^verbatim>\<open>baz\<close> each use a name, and the two names share their
  \<^verbatim>\<open>Load\<close> object, number 9.\<close>

definition ex_scopes :: node where
  "ex_scopes = Node 0 Module
     [Node 1 (ClassDef ''Foo'' None)
        [Node 2 (FunctionDef ''bar'' no_args None None) [Node 5 Other [Node 9 Other []]]],
      Node 3 (FunctionDef ''baz'' no_args None None)
        [Node 6 Other [Node 9 Other []], Node 4 (FunctionDef ''inner'' no_args None None) []]]"

text \<open>\<^verbatim>\<open>a; b\<close>: two expression statements, each with a name, and the two names share their
  \<^verbatim>\<open>Load\<close> object, number 9.\<close>

definition ex_shared :: node where
  "ex_shared = Node 0 Module
     [Node 1 Other [Node 2 Other [Node 9 Other []]],
      Node 3 Other [Node 4 Other [Node 9 Other []]]]"

section \<open>Regular expressions: the matcher decides the language\<close>

lemma nullable_lang: "nullable r \<longleftrightarrow> [] \<in> lang r"
  by (induction r) (auto simp: conc_def intro: star.intros)

lemma conc_Cons_iff:
  "c # s \<in> conc A B \<longleftrightarrow> ([] \<in> A \<and> c # s \<in> B) \<or> (\<exists>u v. s = u @ v \<and> c # u \<in> A \<and> v \<in> B)"
  unfolding conc_def by (auto simp: Cons_eq_append_conv)

lemma star_Cons_iff:
  "c # s \<in> star A \<longleftrightarrow> (\<exists>u v. s = u @ v \<and> c # u \<in> A \<and> v \<in> star A)"
proof
  have "w \<in> star A \<Longrightarrow> w = c # s \<Longrightarrow> \<exists>u v. s = u @ v \<and> c # u \<in> A \<and> v \<in> star A" for w
  proof (induction arbitrary: s rule: star.induct)
    case star_empty
    then show ?case by simp
  next
    case (star_more u v)
    show ?case
    proof (cases u)
      case Nil
      with star_more show ?thesis by simp
    next
      case (Cons d u')
      with star_more show ?thesis by auto
    qed
  qed
  then show "c # s \<in> star A \<Longrightarrow> \<exists>u v. s = u @ v \<and> c # u \<in> A \<and> v \<in> star A" by blast
next
  assume "\<exists>u v. s = u @ v \<and> c # u \<in> A \<and> v \<in> star A"
  then obtain u v where "s = u @ v" "c # u \<in> A" "v \<in> star A" by blast
  then show "c # s \<in> star A" using star_more [of "c # u" A v] by simp
qed

lemma lang_deriv: "s \<in> lang (deriv c r) \<longleftrightarrow> c # s \<in> lang r"
proof (induction r arbitrary: s)
  case (Seq r1 r2)
  then show ?case by (auto simp: conc_Cons_iff nullable_lang) (auto simp: conc_def)
next
  case (Star r)
  then show ?case by (auto simp: star_Cons_iff) (auto simp: conc_def)
qed auto

lemma matches_lang: "matches r s \<longleftrightarrow> s \<in> lang r"
  by (induction s arbitrary: r) (simp_all add: nullable_lang lang_deriv)

text \<open>The words over one class of characters.\<close>

lemma star_class: "s \<in> star {[c] | c. P c} \<longleftrightarrow> list_all P s"
proof
  show "s \<in> star {[c] | c. P c} \<Longrightarrow> list_all P s"
    by (induction rule: star.induct) auto
next
  show "list_all P s \<Longrightarrow> s \<in> star {[c] | c. P c}"
  proof (induction s)
    case Nil
    show ?case by (rule star_empty)
  next
    case (Cons c s)
    then have "[c] \<in> {[c] | c. P c}" and "s \<in> star {[c] | c. P c}" by auto
    then have "[c] @ s \<in> star {[c] | c. P c}" by (rule star_more)
    then show ?case by simp
  qed
qed

lemma lang_lower: "lang lower_letter = {[c] | c. is_lower c}"
  by (simp add: lower_letter_def is_lower_def)
lemma lang_upper: "lang upper_letter = {[c] | c. is_upper c}"
  by (simp add: upper_letter_def is_upper_def)
lemma lang_digit: "lang decimal_digit = {[c] | c. is_digit c}"
  by (simp add: decimal_digit_def is_digit_def)

lemma conc_class: "s \<in> conc {[c] | c. P c} B \<longleftrightarrow> (s \<noteq> [] \<and> P (hd s) \<and> tl s \<in> B)"
proof
  assume "s \<in> conc {[c] | c. P c} B"
  then obtain c v where "s = [c] @ v" "P c" "v \<in> B" unfolding conc_def by blast
  then show "s \<noteq> [] \<and> P (hd s) \<and> tl s \<in> B" by simp
next
  assume a: "s \<noteq> [] \<and> P (hd s) \<and> tl s \<in> B"
  then have "s = [hd s] @ tl s" by simp
  moreover have "[hd s] \<in> {[c] | c. P c}" using a by blast
  ultimately show "s \<in> conc {[c] | c. P c} B" unfolding conc_def using a by blast
qed

lemma lang_alnum: "lang (Alt upper_letter (Alt lower_letter decimal_digit))
      = {[c] | c. is_upper c \<or> is_lower c \<or> is_digit c}"
  by (auto simp: lang_lower lang_upper lang_digit)

lemma lang_class_name_pattern: "s \<in> lang class_name_pattern \<longleftrightarrow> camel_case s"
proof -
  have "lang class_name_pattern
      = conc {[c] | c. is_upper c} (star {[c] | c. is_upper c \<or> is_lower c \<or> is_digit c})"
    unfolding class_name_pattern_def lang.simps(6) lang.simps(7) lang_alnum lang_upper ..
  then show ?thesis
    unfolding camel_case_def by (simp add: conc_class star_class)
qed


lemma lang_one_or_more_lower: "lang (one_or_more lower_letter) = words"
proof -
  have "lang (one_or_more lower_letter) = conc {[c] | c. is_lower c} (star {[c] | c. is_lower c})"
    unfolding one_or_more_def lang.simps(6) lang.simps(7) lang_lower ..
  also have "\<dots> = words"
  proof (rule set_eqI)
    fix w show "w \<in> conc {[c] | c. is_lower c} (star {[c] | c. is_lower c}) \<longleftrightarrow> w \<in> words"
      unfolding words_def by (cases w) (simp_all add: conc_class star_class)
  qed
  finally show ?thesis .
qed

text \<open>The pattern for function names against the automaton, and the automaton against the
  convention in words.\<close>

lemma lang_group: "conc words (lang (zero_or_one (Lit CHR ''_'')))
     = words \<union> {w @ ''_'' | w. w \<in> words}"
  unfolding zero_or_one_def by (auto simp: conc_def)


lemma lang_function_name_pattern: "lang function_name_pattern = snake_lang"
  unfolding function_name_pattern_def snake_lang_def
  by (simp add: lang_one_or_more_lower lang_group)

lemma run_words: "w \<in> words \<Longrightarrow> snake_run False (w @ t) = snake_run True t"
proof -
  have tr: "list_all is_lower u \<Longrightarrow> snake_run True (u @ t) = snake_run True t" for u
    by (induction u) auto
  assume "w \<in> words"
  then show ?thesis unfolding words_def by (cases w) (auto simp: tr)
qed

lemma run_False_True: "snake_run False s \<Longrightarrow> snake_run True s"
  by (cases s) auto

lemma snake_lang_run: "s \<in> snake_lang \<Longrightarrow> snake_run False s"
proof -
  have "x \<in> star (words \<union> {w @ ''_'' | w. w \<in> words}) \<Longrightarrow> w \<in> words \<Longrightarrow> snake_run False (x @ w)" for x w
  proof (induction rule: star.induct)
    case star_empty
    then show ?case using run_words [of w "[]"] by simp
  next
    case (star_more u v)
    from star_more.hyps(1) show ?case
    proof
      assume "u \<in> words"
      then show ?thesis using run_words [of u "v @ w"] star_more run_False_True by simp
    next
      assume "u \<in> {w @ ''_'' | w. w \<in> words}"
      then obtain g where g: "u = g @ ''_''" "g \<in> words" by blast
      then show ?thesis using run_words [of g "''_'' @ v @ w"] star_more
        by (simp add: is_lower_def)
    qed
  qed
  moreover assume "s \<in> snake_lang"
  ultimately show ?thesis unfolding snake_lang_def conc_def by blast
qed

lemma star_step: "u \<in> A \<Longrightarrow> t \<in> conc (star A) B \<Longrightarrow> u @ t \<in> conc (star A) B"
proof -
  assume u: "u \<in> A" and "t \<in> conc (star A) B"
  then obtain x w where t: "t = x @ w" "x \<in> star A" "w \<in> B" unfolding conc_def by blast
  have "u @ x \<in> star A" using u t(2) by (rule star_more)
  then have "(u @ x) @ w \<in> conc (star A) B" unfolding conc_def using t(3) by blast
  then show ?thesis using t(1) by simp
qed

lemma run_snake_lang:
  "(snake_run False s \<longrightarrow> s \<in> snake_lang) \<and>
   (snake_run True s \<longrightarrow> (\<forall>w \<in> words. w @ s \<in> snake_lang))"
proof (induction s)
  case Nil
  have "w \<in> words \<Longrightarrow> w \<in> snake_lang" for w
    unfolding snake_lang_def conc_def using star_empty by fastforce
  then show ?case by simp
next
  case (Cons c s)
  have one: "is_lower c \<Longrightarrow> [c] \<in> words" unfolding words_def by simp
  have ext: "is_lower c \<Longrightarrow> w \<in> words \<Longrightarrow> w @ [c] \<in> words" for w unfolding words_def by simp
  have a: "snake_run False (c # s) \<longrightarrow> c # s \<in> snake_lang"
  proof
    assume "snake_run False (c # s)"
    then have "is_lower c" "snake_run True s" by simp_all
    then have "[c] @ s \<in> snake_lang" using Cons one by blast
    then show "c # s \<in> snake_lang" by simp
  qed
  have b: "snake_run True (c # s) \<longrightarrow> (\<forall>w \<in> words. w @ c # s \<in> snake_lang)"
  proof (intro impI ballI)
    fix w assume r: "snake_run True (c # s)" and w: "w \<in> words"
    show "w @ c # s \<in> snake_lang"
    proof (cases "is_lower c")
      case True
      then have "snake_run True s" using r by simp
      then have "(w @ [c]) @ s \<in> snake_lang" using Cons ext [OF True w] by blast
      then show ?thesis by simp
    next
      case False
      then have c: "c = CHR ''_''" and "snake_run False s" using r by auto
      then have "s \<in> snake_lang" using Cons by blast
      moreover have "w @ ''_'' \<in> words \<union> {w @ ''_'' | w. w \<in> words}" using w by blast
      ultimately have "(w @ ''_'') @ s \<in> snake_lang"
        unfolding snake_lang_def by (rule star_step [rotated])
      then show ?thesis using c by simp
    qed
  qed
  from a b show ?case by blast
qed

lemma not_lower_underscore: "\<not> is_lower CHR ''_''"
  by (simp add: is_lower_def)

lemma snake_run_words:
  "(snake_run True s \<longleftrightarrow>
      list_all (\<lambda>c. is_lower c \<or> c = CHR ''_'') s \<and> (s \<noteq> [] \<longrightarrow> last s \<noteq> CHR ''_'')
      \<and> \<not> double_underscore s)
   \<and> (snake_run False s \<longleftrightarrow> snake_case s)"
proof (induction s)
  case Nil
  show ?case by (simp add: snake_case_def)
next
  case (Cons c s)
  show ?case
  proof (cases s)
    case Nil
    then show ?thesis using not_lower_underscore by (auto simp: snake_case_def)
  next
    case (Cons d s')
    with Cons.IH show ?thesis using not_lower_underscore
      by (auto simp: snake_case_def)
  qed
qed

lemma matches_function_name_pattern: "matches function_name_pattern s \<longleftrightarrow> snake_case s"
  using snake_lang_run [of s] run_snake_lang [of s] snake_run_words [of s]
  by (auto simp: matches_lang lang_function_name_pattern)

lemma matches_class_name_pattern: "matches class_name_pattern s \<longleftrightarrow> camel_case s"
  by (simp add: matches_lang lang_class_name_pattern)

section \<open>The walk, the loops and the parent references\<close>

lemma walk_queue_append:
  "walk_queue (xs @ ys) = xs @ walk_queue (ys @ concat (map children xs))"
  by (induction xs arbitrary: ys) simp_all

lemma walk_queue_children: "walk_queue q = q @ concat (map children (walk_queue q))"
  by (induction q rule: walk_queue.induct) simp_all

lemma walk_queue_levels: "walk_queue q = concat (levels q)"
proof (induction q rule: levels.induct)
  case 1
  show ?case by simp
next
  case (2 n ns)
  have "walk_queue (n # ns) = (n # ns) @ walk_queue (concat (map children (n # ns)))"
    using walk_queue_append [of "n # ns" "[]"] by simp
  with 2 show ?case by simp
qed

lemma walk_level_order: "walk tree = level_order tree"
  by (simp add: walk_def level_order_def walk_queue_levels)

lemma map_snd_edges_of: "map snd (edges_of ns) = concat (map children ns)"
  by (induction ns) (simp_all add: edges_of_def comp_def)

lemma walk_root_edges: "walk tree = tree # map snd (edges tree)"
  using walk_queue_children [of "[tree]"]
  by (simp add: walk_def edges_def map_snd_edges_of)

lemma map_fst_walk_with_parent: "map fst (walk_with_parent tree) = walk tree"
  using walk_root_edges [of tree] by (simp add: walk_with_parent_def comp_def)

lemma foldl_append_selected:
  assumes "\<And>acc n. step acc n = (if P n then acc @ [f n] else acc)"
  shows "foldl step acc xs = acc @ map f (filter P xs)"
  by (induction xs arbitrary: acc) (simp_all add: assms)

lemma comprehension_map_filter:
  "concat (map (\<lambda>n. if P n then [f n] else []) xs) = map f (filter P xs)"
  by (induction xs) simp_all

lemma get_classes_map_filter: "get_classes tree = map node_name (filter isClassDef (walk tree))"
  by (simp add: get_classes_def comprehension_map_filter)

lemma class_not_function: "isClassDef n \<Longrightarrow> \<not> isFunctionDef n"
  by (induction n rule: isFunctionDef.induct) simp_all

lemma docstrings_step_entry:
  "docstrings_step acc n = (if documented n then acc @ [docstring_entry n] else acc)"
  using class_not_function [of n]
  by (auto simp: docstrings_step_def documented_def docstring_entry_def split: option.splits)

lemma get_docstrings_map_filter:
  "get_docstrings tree = map docstring_entry (filter documented (walk tree))"
  unfolding get_docstrings_def
  using foldl_append_selected [of docstrings_step documented docstring_entry "[]"] docstrings_step_entry
  by simp

lemma fold_children_write_all:
  "set_parent_of_children ps node = write_all ps (map (\<lambda>c. (node, c)) (children node))"
  unfolding set_parent_of_children_def write_all_def
  by (simp add: foldl_map)

lemma write_all_append: "write_all ps (es @ fs) = write_all (write_all ps es) fs"
  by (simp add: write_all_def)

lemma foldl_set_parent_write_all:
  "foldl set_parent_of_children ps ns = write_all ps (edges_of ns)"
proof (induction ns arbitrary: ps)
  case Nil
  show ?case by (simp add: edges_of_def write_all_def)
next
  case (Cons n ns)
  have "edges_of (n # ns) = map (\<lambda>c. (n, c)) (children n) @ edges_of ns"
    by (simp add: edges_of_def)
  then show ?case using Cons [of "set_parent_of_children ps n"]
    by (simp add: write_all_append fold_children_write_all)
qed

lemma add_parents_write_all: "add_parents (tree, ps) = (tree, write_all ps (edges tree))"
  by (simp add: add_parents_def edges_def foldl_set_parent_write_all)

lemma write_all_map_add: "write_all ps es = ps ++ write_all Map.empty es"
proof (induction es rule: rev_induct)
  case Nil
  show ?case by (simp add: write_all_def)
next
  case (snoc e es)
  have "write_all ps (es @ [e]) = (write_all ps es)(nid (snd e) \<mapsto> fst e)"
    by (simp add: write_all_def)
  also have "\<dots> = (ps ++ write_all Map.empty es)(nid (snd e) \<mapsto> fst e)"
    using snoc by simp
  also have "\<dots> = ps ++ (write_all Map.empty es)(nid (snd e) \<mapsto> fst e)"
    by (rule map_add_upd [symmetric])
  also have "(write_all Map.empty es)(nid (snd e) \<mapsto> fst e) = write_all Map.empty (es @ [e])"
    by (simp add: write_all_def)
  finally show ?case .
qed

lemma map_add_again: "(ps ++ m) ++ m = ps ++ (m :: parents)"
  by (rule ext) (simp add: map_add_def split: option.splits)

lemma write_all_twice: "write_all (write_all ps es) es = write_all ps es"
proof -
  have "write_all (write_all ps es) es = write_all ps es ++ write_all Map.empty es"
    by (rule write_all_map_add)
  also have "\<dots> = (ps ++ write_all Map.empty es) ++ write_all Map.empty es"
    using write_all_map_add [of ps es] by simp
  also have "\<dots> = ps ++ write_all Map.empty es"
    by (rule map_add_again)
  also have "\<dots> = write_all ps es"
    by (rule write_all_map_add [symmetric])
  finally show ?thesis .
qed

lemma add_parents_twice: "add_parents (add_parents tp) = add_parents tp"
  by (cases tp) (simp add: add_parents_write_all write_all_twice)

lemma re_match_no_newline: "newline \<notin> set s \<Longrightarrow> re_match r s = matches r s"
  by (cases s rule: rev_cases) (auto simp: re_match_def)

lemma foldl_append_selected_on:
  "(\<And>acc n. n \<in> set xs \<Longrightarrow> step acc n = (if P n then acc @ [f n] else acc))
    \<Longrightarrow> foldl step acc xs = acc @ map f (filter P xs)"
  by (induction xs arbitrary: acc) simp_all

lemma underscore_no_letter_or_digit:
  "\<not> is_upper CHR ''_''" "\<not> is_lower CHR ''_''" "\<not> is_digit CHR ''_''"
  by (simp_all add: is_upper_def is_lower_def is_digit_def)

lemma digit_not_upper: "is_digit c \<Longrightarrow> \<not> is_upper c"
proof
  assume "is_digit c" and "is_upper c"
  then have "CHR ''A'' \<le> c" and "c \<le> CHR ''9''" by (simp_all add: is_digit_def is_upper_def)
  then have "CHR ''A'' \<le> CHR ''9''" by (rule order_trans)
  then show False by simp
qed

lemma camel_case_no_underscore:
  "CHR ''_'' \<in> set s \<Longrightarrow> \<not> camel_case s"
  using underscore_no_letter_or_digit
  by (cases s) (auto simp: camel_case_def list_all_iff)

lemma camel_case_no_leading_digit: "is_digit (hd s) \<Longrightarrow> \<not> camel_case s"
  using digit_not_upper by (auto simp: camel_case_def)

lemma startswith_prefix: "startswith s p \<longleftrightarrow> prefix p s"
  unfolding startswith_def prefix_def
  by (metis append_eq_conv_conj append_take_drop_id)

lemma endswith_suffix: "endswith s p \<longleftrightarrow> suffix p s"
proof
  assume "endswith s p"
  then have "s = take (length s - length p) s @ p"
    unfolding endswith_def by (metis append_take_drop_id)
  then show "suffix p s" unfolding suffix_def by blast
next
  assume "suffix p s"
  then obtain zs where "s = zs @ p" unfolding suffix_def by blast
  then show "endswith s p" unfolding endswith_def by simp
qed

lemma get_special_methods_map_filter:
  "get_special_methods tree =
     map node_name (filter (\<lambda>n. isFunctionDef n \<and> is_special_method (node_name n)) (walk tree))"
  by (simp add: get_special_methods_def comprehension_map_filter)

lemma naming_step_selected:
  "naming_step acc n =
     (if isFunctionDef n \<and> \<not> is_special_method (node_name n)
          \<and> \<not> re_match function_name_pattern (node_name n)
      then acc @ [node_name n] else acc)"
  by (simp add: naming_step_def)

lemma check_function_naming_map_filter:
  "check_function_naming tree =
     map node_name (filter (\<lambda>n. isFunctionDef n \<and> \<not> is_special_method (node_name n)
          \<and> \<not> re_match function_name_pattern (node_name n)) (walk tree))"
  unfolding check_function_naming_def
  using foldl_append_selected [of naming_step _ node_name "[]" "walk tree"] naming_step_selected
  by simp

lemma annotation_step_selected:
  "annotation_step acc n =
     (if isFunctionDef n \<and> \<not> is_special_method (node_name n)
          \<and> (\<not> list_all (\<lambda>a. annotation a \<noteq> None) (args (node_args n)) \<or> node_returns n = None)
      then acc @ [node_name n] else acc)"
  by (simp add: annotation_step_def Let_def)

lemma get_type_annotation_issues_map_filter:
  "get_type_annotation_issues tree =
     map node_name (filter (\<lambda>n. isFunctionDef n \<and> \<not> is_special_method (node_name n)
          \<and> (\<not> list_all (\<lambda>a. annotation a \<noteq> None) (args (node_args n)) \<or> node_returns n = None))
        (walk tree))"
  unfolding get_type_annotation_issues_def
  using foldl_append_selected [of annotation_step _ node_name "[]" "walk tree"]
    annotation_step_selected
  by simp

lemma foldl_docstrings_step:
  "foldl docstrings_step acc xs = acc @ map docstring_entry (filter documented xs)"
  using foldl_append_selected [of docstrings_step documented docstring_entry acc xs]
    docstrings_step_entry by simp

lemma erase_async_tests:
  "isFunctionDef (erase_async n) = isFunctionDef n"
  "isClassDef (erase_async n) = isClassDef n"
  by (cases n; cases "kind n"; simp)+

lemma erase_async_fields:
  "nid (erase_async n) = nid n"
  "children (erase_async n) = map erase_async (children n)"
  by (cases n; simp)+

lemma erase_async_attributes:
  assumes "isFunctionDef n \<or> isClassDef n"
  shows "node_name (erase_async n) = node_name n"
    and "get_docstring (erase_async n) = get_docstring n"
    and "node_args (erase_async n) = node_args n"
    and "node_returns (erase_async n) = node_returns n"
  using assms by (cases n; cases "kind n"; simp)+

lemma walk_queue_erase_async:
  "walk_queue (map erase_async q) = map erase_async (walk_queue q)"
  by (induction q rule: walk_queue.induct) (simp_all add: erase_async_fields)

lemma walk_erase_async: "walk (erase_async tree) = map erase_async (walk tree)"
  using walk_queue_erase_async [of "[tree]"] by (simp add: walk_def)

lemma docstrings_step_erase_async:
  "docstrings_step acc (erase_async n) = docstrings_step acc n"
proof (cases "isFunctionDef n \<or> isClassDef n")
  case True
  then have same: "node_name (erase_async n) = node_name n"
    "get_docstring (erase_async n) = get_docstring n"
    by (rule erase_async_attributes)+
  show ?thesis unfolding docstrings_step_def erase_async_tests same ..
next
  case False
  then show ?thesis by (simp add: docstrings_step_def erase_async_tests)
qed

lemma annotation_step_erase_async:
  "annotation_step acc (erase_async n) = annotation_step acc n"
  by (cases "isFunctionDef n")
    (simp_all add: annotation_step_def erase_async_tests erase_async_attributes)

lemma naming_step_erase_async:
  "naming_step acc (erase_async n) = naming_step acc n"
  by (cases "isFunctionDef n")
    (simp_all add: naming_step_def erase_async_tests erase_async_attributes)

lemma foldl_erase_async:
  assumes "\<And>acc n. step acc (erase_async n) = step acc n"
  shows "foldl step acc (map erase_async xs) = foldl step acc xs"
  by (induction xs arbitrary: acc) (simp_all add: assms)

lemma map_filter_erase_async:
  assumes "\<And>n. P (erase_async n) = Q n" and "\<And>n. Q n \<Longrightarrow> f (erase_async n) = f n"
  shows "map f (filter P (map erase_async xs)) = map f (filter Q xs)"
  by (induction xs) (simp_all add: assms)

lemma edges_of_erase_async:
  "edges_of (map erase_async ns) = map (\<lambda>e. (erase_async (fst e), erase_async (snd e))) (edges_of ns)"
  by (induction ns) (simp_all add: edges_of_def erase_async_fields comp_def)

lemma write_all_Cons: "write_all ps (e # es) = write_all (ps(nid (snd e) \<mapsto> fst e)) es"
  by (simp add: write_all_def)

lemma write_all_erase_async:
  "write_all (map_option erase_async \<circ> ps)
      (map (\<lambda>e. (erase_async (fst e), erase_async (snd e))) es)
    = map_option erase_async \<circ> write_all ps es"
proof (induction es arbitrary: ps)
  case Nil
  show ?case by (simp add: write_all_def)
next
  case (Cons e es)
  have upd: "(map_option erase_async \<circ> ps)(nid (snd e) \<mapsto> erase_async (fst e))
      = map_option erase_async \<circ> (ps(nid (snd e) \<mapsto> fst e))"
    by (rule ext) simp
  have "write_all (map_option erase_async \<circ> ps)
          (map (\<lambda>e. (erase_async (fst e), erase_async (snd e))) (e # es))
      = write_all ((map_option erase_async \<circ> ps)(nid (snd e) \<mapsto> erase_async (fst e)))
          (map (\<lambda>e. (erase_async (fst e), erase_async (snd e))) es)"
    by (simp add: write_all_Cons erase_async_fields)
  also have "\<dots> = map_option erase_async \<circ> write_all (ps(nid (snd e) \<mapsto> fst e)) es"
    unfolding upd by (rule Cons)
  also have "\<dots> = map_option erase_async \<circ> write_all ps (e # es)"
    by (simp only: write_all_Cons)
  finally show ?case .
qed

lemma parents_erase_async:
  "snd (add_parents (erase_async tree, Map.empty))
     = map_option erase_async \<circ> snd (add_parents (tree, Map.empty))"
proof -
  have "map_option erase_async \<circ> Map.empty = (Map.empty :: parents)" by (rule ext) simp
  then show ?thesis
    using write_all_erase_async [of Map.empty "edges tree"]
    by (simp add: add_parents_write_all edges_def walk_erase_async edges_of_erase_async)
qed

lemma parent_is_class_erase_async:
  "parent_is_class (map_option erase_async \<circ> ps) (erase_async n) = parent_is_class ps n"
  by (simp add: parent_is_class_def erase_async_fields erase_async_tests split: option.splits)

lemma get_functions_map_filter:
  "get_functions (tree, ps) =
     map node_name (filter (\<lambda>n. isFunctionDef n \<and> \<not> parent_is_class ps n) (walk tree))"
  by (simp add: get_functions_def comprehension_map_filter)

lemma async_example:
  "get_functions (add_parents (ex_async, Map.empty)) = [''helper'']
   \<and> get_special_methods ex_async = []
   \<and> get_docstrings ex_async = [''helper: DocString not found.'']
   \<and> get_type_annotation_issues ex_async = [''helper'']
   \<and> check_function_naming ex_async = []"
  by (simp add: ex_async_def walk_def get_functions_def add_parents_def set_parent_of_children_def
      parent_is_class_def get_special_methods_def get_docstrings_def docstrings_step_def
      get_type_annotation_issues_def annotation_step_def check_function_naming_def naming_step_def
      is_special_method_def startswith_def endswith_def no_args_def re_match_def
      function_name_pattern_def one_or_more_def zero_or_one_def lower_letter_def newline_def)

lemma write_all_lookup:
  "(\<forall>e \<in> set es. nid (snd e) = k \<longrightarrow> fst e = v)
    \<Longrightarrow> write_all ps es k = (if k \<in> (\<lambda>e. nid (snd e)) ` set es then Some v else ps k)"
proof (induction es arbitrary: ps)
  case Nil
  show ?case by (simp add: write_all_def)
next
  case (Cons e es)
  then have "write_all (ps(nid (snd e) \<mapsto> fst e)) es k
      = (if k \<in> (\<lambda>e. nid (snd e)) ` set es then Some v else (ps(nid (snd e) \<mapsto> fst e)) k)"
    by simp
  then show ?case using Cons.prems by (auto simp: write_all_Cons)
qed

lemma write_all_untouched:
  "k \<notin> (\<lambda>e. nid (snd e)) ` set es \<Longrightarrow> write_all ps es k = ps k"
  by (induction es arbitrary: ps) (auto simp: write_all_Cons write_all_def)

lemma count_one_unique:
  "count_list (map f xs) k = 1 \<Longrightarrow> x \<in> set xs \<Longrightarrow> y \<in> set xs \<Longrightarrow> f x = k \<Longrightarrow> f y = k
    \<Longrightarrow> x = y"
proof (induction xs)
  case Nil
  then show ?case by simp
next
  case (Cons a xs)
  show ?case
  proof (cases "f a = k")
    case True
    with Cons.prems(1) have "count_list (map f xs) k = 0" by simp
    then have "k \<notin> set (map f xs)" by (simp add: count_list_0_iff)
    then have "\<forall>z \<in> set xs. f z \<noteq> k" by auto
    with Cons.prems show ?thesis by auto
  next
    case False
    with Cons show ?thesis by auto
  qed
qed

lemma write_all_last:
  "write_all Map.empty es k =
     (case filter (\<lambda>e. nid (snd e) = k) es of
        [] \<Rightarrow> None
      | e # es' \<Rightarrow> Some (fst (last (e # es'))))"
proof (induction es rule: rev_induct)
  case Nil
  show ?case by (simp add: write_all_def)
next
  case (snoc e es)
  have upd: "write_all Map.empty (es @ [e]) = (write_all Map.empty es)(nid (snd e) \<mapsto> fst e)"
    by (simp add: write_all_def)
  show ?case
  proof (cases "nid (snd e) = k")
    case True
    then have "filter (\<lambda>e. nid (snd e) = k) (es @ [e]) = filter (\<lambda>e. nid (snd e) = k) es @ [e]"
      by simp
    moreover have "write_all Map.empty (es @ [e]) k = Some (fst e)"
      using True by (simp add: upd)
    ultimately show ?thesis
      by (cases "filter (\<lambda>e. nid (snd e) = k) es") simp_all
  next
    case False
    then have "filter (\<lambda>e. nid (snd e) = k) (es @ [e]) = filter (\<lambda>e. nid (snd e) = k) es"
      by simp
    moreover have "write_all Map.empty (es @ [e]) k = write_all Map.empty es k"
      using False by (simp add: upd)
    ultimately show ?thesis using snoc by simp
  qed
qed

lemma parent_of_unshared:
  assumes "cp \<in> set (walk_with_parent tree)" and "unshared tree (fst cp)"
  shows "snd (add_parents (tree, Map.empty)) (nid (fst cp)) = snd cp"
proof -
  let ?E = "edges tree"
  let ?k = "nid (fst cp)"
  have ps: "snd (add_parents (tree, Map.empty)) = write_all Map.empty ?E"
    by (simp add: add_parents_write_all)
  have ids: "map nid (walk tree) = nid tree # map (\<lambda>e. nid (snd e)) ?E"
    using walk_root_edges [of tree] by (simp add: comp_def)
  have one: "count_list (nid tree # map (\<lambda>e. nid (snd e)) ?E) ?k = 1"
    using assms(2) ids by (simp add: unshared_def)
  from assms(1) consider (root) "cp = (tree, None)"
    | (child) e where "e \<in> set ?E" "cp = (snd e, Some (fst e))"
    by (auto simp: walk_with_parent_def)
  then show ?thesis
  proof cases
    case root
    with one have "count_list (map (\<lambda>e. nid (snd e)) ?E) (nid tree) = 0" by simp
    then have "nid tree \<notin> (\<lambda>e. nid (snd e)) ` set ?E"
      by (simp add: count_list_0_iff)
    then have "write_all Map.empty ?E (nid tree) = None"
      by (simp add: write_all_untouched)
    with root ps show ?thesis by simp
  next
    case child
    then have k: "?k = nid (snd e)" by simp
    have "count_list (map (\<lambda>e. nid (snd e)) ?E) ?k \<noteq> 0"
      using child(1) k by (simp add: count_list_0_iff)
    with one have c1: "count_list (map (\<lambda>e. nid (snd e)) ?E) ?k = 1"
      by (simp split: if_splits)
    have all: "\<forall>e' \<in> set ?E. nid (snd e') = ?k \<longrightarrow> fst e' = fst e"
      using count_one_unique [OF c1 _ child(1) _ k [symmetric]] by auto
    have mem: "?k \<in> (\<lambda>e. nid (snd e)) ` set ?E"
      unfolding k using child(1) by (rule imageI)
    have "write_all Map.empty ?E ?k = Some (fst e)"
      using write_all_lookup [OF all, of Map.empty] mem by (simp only: if_True)
    then have "snd (add_parents (tree, Map.empty)) ?k = Some (fst e)"
      by (simp only: ps)
    moreover have "snd cp = Some (fst e)" using child(2) by simp
    ultimately show ?thesis by (simp only:)
  qed
qed

section \<open>The claims\<close>

text \<open>
  C2. \<^verbatim>\<open>check_function_naming\<close> reports, in the order of the walk, the names of exactly those
  function declarations that are not special methods and whose name is not in snake case:
  groups of lowercase letters separated by single underscores, with no leading, trailing or
  double underscore and no digit. Names are identifiers, so they hold no newline. On the
  five example names, \<^verbatim>\<open>do_thing\<close> is not reported and \<^verbatim>\<open>DoThing\<close>, \<^verbatim>\<open>do__thing\<close>, \<^verbatim>\<open>_do\<close> and
  \<^verbatim>\<open>do1\<close> are.
\<close>

theorem check_function_naming_snake_case:
  assumes "\<forall>n \<in> set (walk tree). isFunctionDef n \<longrightarrow> newline \<notin> set (node_name n)"
  shows "check_function_naming tree =
     map node_name (filter (\<lambda>n. isFunctionDef n \<and> \<not> is_special_method (node_name n)
                                \<and> \<not> snake_case (node_name n)) (walk tree))"
  unfolding check_function_naming_def
proof (rule foldl_append_selected_on [of "walk tree" naming_step _ node_name "[]", simplified])
  fix acc n assume "n \<in> set (walk tree)"
  with assms have "isFunctionDef n \<Longrightarrow> newline \<notin> set (node_name n)" by blast
  then show "naming_step acc n =
     (if isFunctionDef n \<and> \<not> is_special_method (node_name n) \<and> \<not> snake_case (node_name n)
      then acc @ [node_name n] else acc)"
    by (simp add: naming_step_def re_match_no_newline matches_function_name_pattern)
qed

theorem check_function_naming_snake_case_witness:
  "check_function_naming ex_names = [''DoThing'', ''do__thing'', ''_do'', ''do1'']"
  using check_function_naming_snake_case [of ex_names]
  by (simp add: ex_names_def plain_function_def walk_def newline_def snake_case_def
      is_special_method_def startswith_def endswith_def is_lower_def)

text \<open>
  C3. \<^verbatim>\<open>check_class_naming\<close> reports exactly the names that do not start with one uppercase
  letter followed by a run of letters and digits; a name with an underscore or a leading
  digit is always reported. Names are identifiers, so they hold no newline. Of the example
  names, \<^verbatim>\<open>Foo1\<close> is not reported and \<^verbatim>\<open>foo\<close>, \<^verbatim>\<open>Foo_Bar\<close> and \<^verbatim>\<open>1Foo\<close> are.
\<close>

theorem check_class_naming_camel_case:
  assumes "\<forall>name \<in> set classes. newline \<notin> set name"
  shows "check_class_naming classes = filter (\<lambda>name. \<not> camel_case name) classes
    \<and> (\<forall>name \<in> set classes. CHR ''_'' \<in> set name \<or> (name \<noteq> [] \<and> is_digit (hd name))
          \<longrightarrow> name \<in> set (check_class_naming classes))"
proof -
  have "check_class_naming classes = filter (\<lambda>name. \<not> re_match class_name_pattern name) classes"
    unfolding check_class_naming_def
    using comprehension_map_filter [of "\<lambda>name. \<not> re_match class_name_pattern name" "\<lambda>name. name" classes]
    by simp
  also have "\<dots> = filter (\<lambda>name. \<not> camel_case name) classes"
    using assms by (intro filter_cong refl) (simp add: re_match_no_newline matches_class_name_pattern)
  finally have eq: "check_class_naming classes = filter (\<lambda>name. \<not> camel_case name) classes" .
  then show ?thesis
    using camel_case_no_underscore camel_case_no_leading_digit by auto
qed

theorem check_class_naming_camel_case_witness:
  "check_class_naming [''Foo1'', ''foo'', ''Foo_Bar'', ''1Foo''] = [''foo'', ''Foo_Bar'', ''1Foo'']"
  using check_class_naming_camel_case [of "[''Foo1'', ''foo'', ''Foo_Bar'', ''1Foo'']"]
  by (simp add: newline_def camel_case_def is_upper_def is_lower_def is_digit_def)

text \<open>
  C4, as amended. \<^verbatim>\<open>get_docstrings\<close> emits exactly one entry for every class declaration and
  every function declaration that is not a special method, in the order of the walk: the
  name, a colon, a newline and the text when the documentation string is not empty, and the
  name followed by \<^verbatim>\<open>: DocString not found.\<close> when there is none or it is empty. The entry the
  specification words, with a colon and a space before the text, is not what the function
  \<^verbatim>\<open>f\<close> documented by \<^verbatim>\<open>hi\<close> gets.
\<close>

theorem get_docstrings_entries:
  "get_docstrings tree = map docstring_entry (filter documented (walk tree))"
proof -
  have "foldl docstrings_step [] (walk tree)
      = [] @ map docstring_entry (filter documented (walk tree))"
    by (rule foldl_append_selected) (rule docstrings_step_entry)
  then show ?thesis by (simp add: get_docstrings_def)
qed

theorem get_docstrings_claimed_format_counterexample:
  "get_docstrings ex_doc \<noteq> map claimed_docstring_entry (filter documented (walk ex_doc))"
  by (simp add: get_docstrings_def ex_doc_def walk_def docstrings_step_def documented_def
      claimed_docstring_entry_def is_special_method_def startswith_def endswith_def newline_def)

text \<open>
  C5, as amended. For every tree, \<^verbatim>\<open>get_classes\<close> lists the class names, and
  \<^verbatim>\<open>get_docstrings\<close> its entries, in level order (breadth first), the order of \<^verbatim>\<open>ast.walk\<close>:
  the root, then its children, then their children, each level from left to right, with the
  classes and functions of one level interleaved. On the example tree, where the class \<^verbatim>\<open>A\<close>
  holds a method and a nested class and is followed by a function and the class \<^verbatim>\<open>B\<close>, neither
  list is in pre-order.
\<close>

theorem discovery_is_level_order:
  "get_classes tree = map node_name (filter isClassDef (level_order tree))
   \<and> get_docstrings tree = map docstring_entry (filter documented (level_order tree))"
  using get_classes_map_filter [of tree] get_docstrings_map_filter [of tree]
  by (simp add: walk_level_order)

theorem discovery_preorder_counterexample:
  "get_classes ex_nested \<noteq> map node_name (filter isClassDef (preorder ex_nested))
   \<and> get_docstrings ex_nested \<noteq> map docstring_entry (filter documented (preorder ex_nested))"
  by (simp add: get_classes_def get_docstrings_def ex_nested_def walk_def docstrings_step_def
      documented_def docstring_entry_def is_special_method_def startswith_def endswith_def
      no_args_def)

text \<open>
  C9. Running \<^verbatim>\<open>add_parents\<close> a second time changes the output of no extractor, on any tree
  and from any earlier state of the parent references.
\<close>

theorem add_parents_again_same_outputs:
  "get_imports (fst (add_parents (add_parents tp))) = get_imports (fst (add_parents tp))
   \<and> get_classes (fst (add_parents (add_parents tp))) = get_classes (fst (add_parents tp))
   \<and> get_functions (add_parents (add_parents tp)) = get_functions (add_parents tp)
   \<and> get_docstrings (fst (add_parents (add_parents tp))) = get_docstrings (fst (add_parents tp))
   \<and> get_type_annotation_issues (fst (add_parents (add_parents tp)))
       = get_type_annotation_issues (fst (add_parents tp))
   \<and> check_function_naming (fst (add_parents (add_parents tp)))
       = check_function_naming (fst (add_parents tp))
   \<and> get_special_methods (fst (add_parents (add_parents tp)))
       = get_special_methods (fst (add_parents tp))"
proof -
  obtain tree ps where tp: "tp = (tree, ps)" by (cases tp)
  have "write_all (write_all ps (edges tree)) (edges tree) = write_all ps (edges tree)"
    by (rule write_all_twice)
  then have "add_parents (add_parents tp) = add_parents tp"
    by (simp add: tp add_parents_write_all)
  then show ?thesis by simp
qed

text \<open>
  C1, at an input where it fails. \<^verbatim>\<open>get_type_annotation_issues\<close> tests the parameters in
  \<^verbatim>\<open>args.args\<close> only. The function \<^verbatim>\<open>def f(*, x) -> int\<close> is not a special method and its
  parameter \<^verbatim>\<open>x\<close> has no declared type, so the claim puts \<^verbatim>\<open>f\<close> on the list; the list is
  empty.
\<close>

theorem annotation_check_misses_keyword_only:
  "get_type_annotation_issues ex_kwonly = []
   \<and> isFunctionDef ex_kwonly_function
   \<and> \<not> is_special_method (node_name ex_kwonly_function)
   \<and> lacks_annotation ex_kwonly_function"
  by (simp add: get_type_annotation_issues_def ex_kwonly_def ex_kwonly_function_def walk_def
      annotation_step_def is_special_method_def startswith_def endswith_def
      lacks_annotation_def all_parameters_def)

text \<open>
  C7. A name is a special method exactly when it starts and ends with two underscores. A
  function declaration with such a name, wherever it stands in the tree, has its name in the
  output of \<^verbatim>\<open>get_special_methods\<close>; its name is not in the output of
  \<^verbatim>\<open>check_function_naming\<close> nor of \<^verbatim>\<open>get_type_annotation_issues\<close>; and it adds no entry
  to \<^verbatim>\<open>get_docstrings\<close>: the loop gives the same entries when the declaration is left out of
  the walk.
\<close>

theorem special_methods_only_in_their_category:
  assumes "n \<in> set (walk tree)" and "isFunctionDef n" and "is_special_method (node_name n)"
  shows "(is_special_method name \<longleftrightarrow> prefix ''__'' name \<and> suffix ''__'' name)
    \<and> node_name n \<in> set (get_special_methods tree)
    \<and> node_name n \<notin> set (check_function_naming tree)
    \<and> node_name n \<notin> set (get_type_annotation_issues tree)
    \<and> foldl docstrings_step [] (removeAll n (walk tree)) = get_docstrings tree"
proof -
  have a: "is_special_method name \<longleftrightarrow> prefix ''__'' name \<and> suffix ''__'' name"
    by (simp add: is_special_method_def startswith_prefix endswith_suffix)
  have b: "node_name n \<in> set (get_special_methods tree)"
    using assms by (auto simp: get_special_methods_map_filter)
  have c: "node_name n \<notin> set (check_function_naming tree)"
    using assms(3) by (auto simp: check_function_naming_map_filter)
  have d: "node_name n \<notin> set (get_type_annotation_issues tree)"
    using assms(3) by (auto simp: get_type_annotation_issues_map_filter)
  have "\<not> documented n"
    using assms(2,3) class_not_function [of n] by (auto simp: documented_def)
  then have "filter documented (removeAll n (walk tree)) = filter documented (walk tree)"
    by (induction "walk tree") (auto simp: removeAll_filter_not_eq filter_id_conv intro: filter_cong)
  then have e: "foldl docstrings_step [] (removeAll n (walk tree)) = get_docstrings tree"
    by (simp add: foldl_docstrings_step get_docstrings_map_filter)
  from a b c d e show ?thesis by blast
qed

theorem special_methods_only_in_their_category_witness:
  "get_special_methods ex_special = [''__main__'', ''__init__'']
   \<and> ''__init__'' \<notin> set (check_function_naming ex_special)
   \<and> ''__init__'' \<notin> set (get_type_annotation_issues ex_special)
   \<and> get_docstrings ex_special = [''C: DocString not found.'']"
  using special_methods_only_in_their_category
    [of "Node 2 (FunctionDef ''__init__'' no_args None None) []" ex_special "''__init__''"]
  by (simp add: ex_special_def walk_def get_special_methods_def is_special_method_def
      startswith_def endswith_def get_docstrings_def docstrings_step_def)

text \<open>
  C10. An async function declaration is invisible to every extractor: replacing every
  \<^verbatim>\<open>AsyncFunctionDef\<close> node of a tree by a node of no interest with the same children
  changes neither the free functions, nor the special methods, nor the entries for
  documentation strings, nor the missing annotations, nor the bad function names.
\<close>

theorem async_functions_are_invisible:
  "get_functions (add_parents (erase_async tree, Map.empty))
     = get_functions (add_parents (tree, Map.empty))
   \<and> get_special_methods (erase_async tree) = get_special_methods tree
   \<and> get_docstrings (erase_async tree) = get_docstrings tree
   \<and> get_type_annotation_issues (erase_async tree) = get_type_annotation_issues tree
   \<and> check_function_naming (erase_async tree) = check_function_naming tree"
proof -
  let ?ps = "snd (add_parents (tree, Map.empty))"
  have "get_functions (add_parents (erase_async tree, Map.empty))
      = get_functions (erase_async tree, map_option erase_async \<circ> ?ps)"
    using parents_erase_async [of tree] by (simp add: add_parents_def)
  also have "\<dots> = map node_name
      (filter (\<lambda>n. isFunctionDef n \<and> \<not> parent_is_class (map_option erase_async \<circ> ?ps) n)
         (map erase_async (walk tree)))"
    by (simp add: get_functions_map_filter walk_erase_async)
  also have "\<dots> = map node_name
      (filter (\<lambda>n. isFunctionDef n \<and> \<not> parent_is_class ?ps n) (walk tree))"
    by (rule map_filter_erase_async)
      (auto simp: erase_async_tests erase_async_attributes parent_is_class_erase_async)
  also have "\<dots> = get_functions (add_parents (tree, Map.empty))"
    by (simp add: get_functions_map_filter add_parents_def)
  finally have a: "get_functions (add_parents (erase_async tree, Map.empty))
     = get_functions (add_parents (tree, Map.empty))" .
  have b: "get_special_methods (erase_async tree) = get_special_methods tree"
    unfolding get_special_methods_map_filter walk_erase_async
    by (rule map_filter_erase_async) (auto simp: erase_async_tests erase_async_attributes)
  have c: "get_docstrings (erase_async tree) = get_docstrings tree"
    unfolding get_docstrings_def walk_erase_async
    by (rule foldl_erase_async) (rule docstrings_step_erase_async)
  have d: "get_type_annotation_issues (erase_async tree) = get_type_annotation_issues tree"
    unfolding get_type_annotation_issues_def walk_erase_async
    by (rule foldl_erase_async) (rule annotation_step_erase_async)
  have e: "check_function_naming (erase_async tree) = check_function_naming tree"
    unfolding check_function_naming_def walk_erase_async
    by (rule foldl_erase_async) (rule naming_step_erase_async)
  from a b c d e show ?thesis by blast
qed

text \<open>
  C6. After \<^verbatim>\<open>add_parents\<close> on a freshly parsed tree, \<^verbatim>\<open>get_functions\<close> collects, in the
  order of the walk, exactly the function declarations whose parent node in the tree is not
  a class declaration; those and the declarations whose parent is a class (the methods)
  together are all the function declarations, each once. Declarations are objects of their
  own, met once by the walk; only nodes such as \<^verbatim>\<open>Load\<close> are shared.
\<close>

theorem get_functions_by_parent:
  assumes "\<forall>n \<in> set (walk tree). isFunctionDef n \<longrightarrow> unshared tree n"
  shows "get_functions (add_parents (tree, Map.empty))
      = map (\<lambda>cp. node_name (fst cp))
          (filter (\<lambda>cp. isFunctionDef (fst cp) \<and> \<not> has_class_parent (snd cp))
             (walk_with_parent tree))
    \<and> mset (get_functions (add_parents (tree, Map.empty)))
        + mset (map (\<lambda>cp. node_name (fst cp))
            (filter (\<lambda>cp. isFunctionDef (fst cp) \<and> has_class_parent (snd cp))
               (walk_with_parent tree)))
      = mset (map node_name (filter isFunctionDef (walk tree)))"
proof -
  let ?ps = "snd (add_parents (tree, Map.empty))"
  let ?W = "walk_with_parent tree"
  have same: "parent_is_class ?ps (fst cp) = has_class_parent (snd cp)"
    if "cp \<in> set ?W" and "isFunctionDef (fst cp)" for cp
  proof -
    have "fst cp \<in> set (walk tree)"
      using that(1) map_fst_walk_with_parent [of tree] by (metis image_eqI set_map)
    with assms that(2) have "unshared tree (fst cp)" by blast
    then have "?ps (nid (fst cp)) = snd cp" using that(1) parent_of_unshared by blast
    then show ?thesis by (simp add: parent_is_class_def has_class_parent_def)
  qed
  have "get_functions (add_parents (tree, Map.empty))
      = map node_name (filter (\<lambda>n. isFunctionDef n \<and> \<not> parent_is_class ?ps n) (map fst ?W))"
    by (simp add: add_parents_def get_functions_map_filter map_fst_walk_with_parent)
  also have "\<dots> = map (\<lambda>cp. node_name (fst cp))
      (filter (\<lambda>cp. isFunctionDef (fst cp) \<and> \<not> parent_is_class ?ps (fst cp)) ?W)"
    by (simp add: filter_map comp_def)
  also have "\<dots> = map (\<lambda>cp. node_name (fst cp))
      (filter (\<lambda>cp. isFunctionDef (fst cp) \<and> \<not> has_class_parent (snd cp)) ?W)"
    using same by (metis (mono_tags, lifting) filter_cong)
  finally have free: "get_functions (add_parents (tree, Map.empty))
      = map (\<lambda>cp. node_name (fst cp))
          (filter (\<lambda>cp. isFunctionDef (fst cp) \<and> \<not> has_class_parent (snd cp)) ?W)" .
  have split: "mset (map f (filter (\<lambda>x. P x \<and> \<not> Q x) xs)) + mset (map f (filter (\<lambda>x. P x \<and> Q x) xs))
      = mset (map f (filter P xs))" for f :: "node \<times> node option \<Rightarrow> string" and P Q xs
    by (induction xs) auto
  have "map node_name (filter isFunctionDef (walk tree))
      = map (\<lambda>cp. node_name (fst cp)) (filter (\<lambda>cp. isFunctionDef (fst cp)) ?W)"
    using map_fst_walk_with_parent [of tree, symmetric] by (simp add: filter_map comp_def)
  with free split [of "\<lambda>cp. node_name (fst cp)" "\<lambda>cp. isFunctionDef (fst cp)"
      "\<lambda>cp. has_class_parent (snd cp)" ?W]
  show ?thesis by simp
qed

theorem get_functions_by_parent_witness:
  "get_functions (add_parents (ex_scopes, Map.empty)) = [''baz'', ''inner'']"
  using get_functions_by_parent [of ex_scopes]
  by (simp add: ex_scopes_def walk_def unshared_def walk_with_parent_def edges_def edges_of_def
      has_class_parent_def)

text \<open>
  C8, as amended. After \<^verbatim>\<open>add_parents\<close> on a freshly parsed tree, every node object carries
  the reference that was written last: a reference to the parent that the walk meets last
  for it, and none when it is the child of no node. So every node that the walk meets once
  only carries a reference to the node of which it is a direct child, and the root, met once,
  carries none; a node object shared between several places of the tree, as the \<^verbatim>\<open>Load\<close>
  object of two names is, carries a reference to the parent at its last place, which is not
  the parent at its other places. The tree itself is returned as it was; the extractors
  return lists only and write no reference.
\<close>

theorem add_parents_writes_last_parent:
  "snd (add_parents (tree, Map.empty)) k = last_parent tree k
   \<and> parents_of_unshared tree (snd (add_parents (tree, Map.empty)))
   \<and> fst (add_parents (tree, ps)) = tree"
proof -
  have "snd (add_parents (tree, Map.empty)) k = write_all Map.empty (edges tree) k"
    by (simp add: add_parents_write_all)
  then have a: "snd (add_parents (tree, Map.empty)) k = last_parent tree k"
    by (simp only: write_all_last last_parent_def)
  have b: "parents_of_unshared tree (snd (add_parents (tree, Map.empty)))"
    using parent_of_unshared [of _ tree] by (simp add: parents_of_unshared_def list_all_iff)
  have c: "fst (add_parents (tree, ps)) = tree"
    by (simp add: add_parents_def)
  from a b c show ?thesis by blast
qed

theorem add_parents_writes_last_parent_witness:
  "snd (add_parents (ex_shared, Map.empty)) 9 = Some (Node 4 Other [Node 9 Other []])
   \<and> snd (add_parents (ex_shared, Map.empty)) 2 = Some (Node 1 Other [Node 2 Other [Node 9 Other []]])
   \<and> snd (add_parents (ex_shared, Map.empty)) 0 = None
   \<and> parents_as_claimed ex_nested (snd (add_parents (ex_nested, Map.empty)))"
proof -
  have "last_parent ex_shared 9 = Some (Node 4 Other [Node 9 Other []])"
    and "last_parent ex_shared 2 = Some (Node 1 Other [Node 2 Other [Node 9 Other []]])"
    and "last_parent ex_shared 0 = None"
    by (simp_all add: last_parent_def edges_def edges_of_def walk_def ex_shared_def)
  moreover have "parents_as_claimed ex_nested (snd (add_parents (ex_nested, Map.empty)))"
    using add_parents_writes_last_parent [of ex_nested 0 Map.empty, THEN conjunct2, THEN conjunct1]
    by (simp add: parents_of_unshared_def parents_as_claimed_def unshared_def
        walk_with_parent_def edges_def edges_of_def walk_def ex_nested_def)
  ultimately show ?thesis
    using add_parents_writes_last_parent [of ex_shared 9 Map.empty]
      add_parents_writes_last_parent [of ex_shared 2 Map.empty]
      add_parents_writes_last_parent [of ex_shared 0 Map.empty]
    by (simp only: simp_thms)
qed

theorem add_parents_shared_node_counterexample:
  "\<not> parents_as_claimed ex_shared (snd (add_parents (ex_shared, Map.empty)))"
  by (simp add: parents_as_claimed_def walk_with_parent_def edges_def edges_of_def walk_def
      ex_shared_def add_parents_def set_parent_of_children_def)

end
